theory Spec2Isabelle
  imports Main
begin

section \<open>Memory blocks\<close>

text \<open>
  The buffer reaches its elements through \<^verbatim>\<open>unsafe.Pointer\<close> arithmetic, so an access is
  not checked against the allocation it lands in. The model makes the allocation explicit:
  a block is the list of the slots that follow the \<^verbatim>\<open>data\<close> pointer up to the end of its
  allocation, and an access outside it is the error \<open>OutOfAllocation\<close>. A checked Go
  operation that panics (an index or a slice bound out of range, a negative length) is the
  error \<open>Panic\<close>. Go's \<^verbatim>\<open>int\<close> is modelled by \<open>int\<close>: in a run of the program every counter
  is bounded by the number of elements held in memory, so no addition wraps; a statement
  about states or inputs that are not bounded in this way carries the bound \<open>2^63 - 1\<close> as a
  hypothesis.
\<close>

datatype error = Panic | OutOfAllocation

text \<open>
  A slice handed to \<^verbatim>\<open>Push\<close>: its \<^verbatim>\<open>len\<close> elements, and the \<^verbatim>\<open>cap - len\<close> slots of the
  backing array that follow them. Each pushed slice has a backing array of its own (the
  caller gives the array up when it pushes it).
\<close>

datatype 'a slice = Slice (elems: "'a list") (spare: "'a list")

definition load :: "'a list \<Rightarrow> int \<Rightarrow> error + 'a" where
  "load m i = (if 0 \<le> i \<and> i < int (length m) then Inr (m ! nat i) else Inl OutOfAllocation)"

definition store :: "'a list \<Rightarrow> int \<Rightarrow> 'a \<Rightarrow> error + 'a list" where
  "store m i v =
     (if 0 \<le> i \<and> i < int (length m) then Inr (m[nat i := v]) else Inl OutOfAllocation)"

text \<open>Reading the run of \<open>n\<close> slots that starts at slot \<open>p\<close> (\<^verbatim>\<open>copy\<close>, \<^verbatim>\<open>append(result, slice...)\<close>).\<close>

definition load_run :: "'a list \<Rightarrow> int \<Rightarrow> int \<Rightarrow> error + 'a list" where
  "load_run m p n =
     (if 0 \<le> p \<and> 0 \<le> n \<and> p + n \<le> int (length m)
      then Inr (take (nat n) (drop (nat p) m)) else Inl OutOfAllocation)"

text \<open>
  \<^verbatim>\<open>slice := unsafe.Slice((*T)(data), size); slice[i]\<close>: the index is checked against
  \<open>size\<close>, the slot read may still lie outside the allocation.
\<close>

definition index :: "'a list \<Rightarrow> int \<Rightarrow> int \<Rightarrow> error + 'a" where
  "index m sz i = (if i < 0 \<or> sz \<le> i then Inl Panic else load m i)"

text \<open>The loop of the small-append path: \<^verbatim>\<open>for i := range data { *(ptr + i) = data[i] }\<close>.\<close>

fun write_all :: "'a list \<Rightarrow> int \<Rightarrow> 'a list \<Rightarrow> error + 'a list" where
  "write_all m p [] = Inr m"
| "write_all m p (v # vs) =
     (case store m p v of Inl e \<Rightarrow> Inl e | Inr m' \<Rightarrow> write_all m' (p + 1) vs)"

section \<open>Data model\<close>

text \<open>
  Modelled from the spec: the declarations of the types \<^verbatim>\<open>Chunk\<close>, \<^verbatim>\<open>TreeNode\<close> and
  \<^verbatim>\<open>ChunkPipe\<close> are not part of the source at hand; the fields are the ones the methods
  use, as the data model of the specification describes them.

  A chunk: the block behind its \<^verbatim>\<open>data\<close> pointer, \<^verbatim>\<open>size\<close> and \<^verbatim>\<open>offset\<close>. The pointer is
  never \<^verbatim>\<open>nil\<close>: \<^verbatim>\<open>Push\<close> sets it to the address of the first element of a non-empty slice.
  The links \<^verbatim>\<open>prev\<close> and \<^verbatim>\<open>next\<close> are the positions in the list \<open>chain\<close> of the buffer:
  \<^verbatim>\<open>head\<close> is its first chunk, \<^verbatim>\<open>tail\<close> its last one, and both are \<^verbatim>\<open>nil\<close> when the list is
  empty. Every operation keeps the links a doubly linked list between \<^verbatim>\<open>head\<close> and
  \<^verbatim>\<open>tail\<close>: \<^verbatim>\<open>Push\<close> links behind the tail, a pop unlinks the chunk at one end and clears
  the outward link of the new end.
\<close>

record 'a Chunk =
  data :: "'a list"
  size_c :: int
  offset :: int

text \<open>A node of the weighted index tree; \<open>NilNode\<close> is the \<^verbatim>\<open>nil\<close> pointer.\<close>

datatype TreeNode =
  NilNode
  | TreeNode (sum_t: int) (validSize_t: int) (blockAddr: nat) (left: TreeNode) (right: TreeNode)

text \<open>The buffer. The lock \<^verbatim>\<open>mu\<close> is left out: every operation is modelled as one atomic step.\<close>

record 'a ChunkPipe =
  chain :: "'a Chunk list"
  totalSize :: int
  validSize :: int
  root :: TreeNode

text \<open>
  Modelled from the spec: the constructor is not part of the source at hand; a new buffer
  has no chunks, both counters at zero and no index tree.
\<close>

definition empty_pipe :: "'a ChunkPipe" where
  "empty_pipe = \<lparr>chain = [], totalSize = 0, validSize = 0, root = NilNode\<rparr>"

section \<open>Push\<close>

definition Push :: "'a ChunkPipe \<Rightarrow> 'a slice \<Rightarrow> error + 'a ChunkPipe" where
  "Push cl d =
     (if length (elems d) = 0 then Inr cl
      else if length (elems d) \<le> 8 \<and> chain cl \<noteq> []
              \<and> size_c (last (chain cl)) - offset (last (chain cl)) < 16
      then
        (let t = last (chain cl) in
         case write_all (data t) (size_c t) (elems d) of
           Inl e \<Rightarrow> Inl e
         | Inr m \<Rightarrow>
             Inr (cl\<lparr>chain := butlast (chain cl)
                          @ [t\<lparr>data := m, size_c := size_c t + int (length (elems d))\<rparr>],
                     totalSize := totalSize cl + int (length (elems d)),
                     validSize := validSize cl + int (length (elems d))\<rparr>))
      else
        (let block = \<lparr>data = elems d @ spare d, size_c = int (length (elems d)), offset = 0\<rparr>
         in Inr (cl\<lparr>chain := chain cl @ [block],
                    totalSize := totalSize cl + int (length (elems d)),
                    validSize := validSize cl + int (length (elems d))\<rparr>)))"

section \<open>The index tree\<close>



section \<open>Get\<close>

text \<open>
  The operations that return an element take the zero value of the element type
  (\<^verbatim>\<open>var zero T\<close>) as the parameter \<open>zero\<close>.
\<close>

fun Get_loop :: "'a \<Rightarrow> 'a Chunk list \<Rightarrow> int \<Rightarrow> error + ('a \<times> bool)" where
  "Get_loop zero [] remainingIndex = Inr (zero, False)"
| "Get_loop zero (current # rest) remainingIndex =
     (let validCount = size_c current - offset current in
      if remainingIndex < validCount
      then (case load (data current) (offset current + remainingIndex) of
              Inl e \<Rightarrow> Inl e
            | Inr v \<Rightarrow> Inr (v, True))
      else Get_loop zero rest (remainingIndex - validCount))"

definition Get :: "'a \<Rightarrow> 'a ChunkPipe \<Rightarrow> int \<Rightarrow> error + ('a \<times> bool)" where
  "Get zero cl i =
     (if i < 0 \<or> i \<ge> validSize cl then Inr (zero, False) else Get_loop zero (chain cl) i)"

section \<open>Popping whole chunks\<close>

text \<open>
  \<^verbatim>\<open>src := unsafe.Slice((*T)(block.data), block.size); copy(newData, src[block.offset:])\<close>,
  reached with \<^verbatim>\<open>block.size - block.offset > 0\<close>: the slice expression panics on a negative
  offset, the copy reads the slots from \<open>offset\<close> up to \<open>size\<close>.
\<close>

definition copy_valid :: "'a Chunk \<Rightarrow> error + 'a list" where
  "copy_valid block =
     (if offset block < 0 then Inl Panic
      else load_run (data block) (offset block) (size_c block - offset block))"

definition PopChunkFront :: "'a ChunkPipe \<Rightarrow> error + ('a ChunkPipe \<times> 'a list \<times> bool)" where
  "PopChunkFront cl =
     (case chain cl of
        [] \<Rightarrow> Inr (cl, [], False)
      | block # rest \<Rightarrow>
          if validSize cl = 0 then Inr (cl, [], False)
          else
            (let validCount = size_c block - offset block in
             if validCount \<le> 0 then Inr (cl\<lparr>chain := rest\<rparr>, [], False)
             else
               (case copy_valid block of
                  Inl e \<Rightarrow> Inl e
                | Inr newData \<Rightarrow>
                    Inr (cl\<lparr>chain := rest,
                            totalSize := totalSize cl - validCount,
                            validSize := validSize cl - validCount\<rparr>, newData, True))))"

definition PopChunkEnd :: "'a ChunkPipe \<Rightarrow> error + ('a ChunkPipe \<times> 'a list \<times> bool)" where
  "PopChunkEnd cl =
     (if chain cl = [] \<or> validSize cl = 0 then Inr (cl, [], False)
      else
        (let block = last (chain cl); validCount = size_c block - offset block in
         if validCount \<le> 0 then Inr (cl\<lparr>chain := butlast (chain cl)\<rparr>, [], False)
         else
           (case copy_valid block of
              Inl e \<Rightarrow> Inl e
            | Inr newData \<Rightarrow>
                Inr (cl\<lparr>chain := butlast (chain cl),
                        totalSize := totalSize cl - validCount,
                        validSize := validSize cl - validCount\<rparr>, newData, True))))"

section \<open>Popping single elements\<close>

definition PopFront :: "'a \<Rightarrow> 'a ChunkPipe \<Rightarrow> error + ('a ChunkPipe \<times> 'a \<times> bool)" where
  "PopFront zero cl =
     (case chain cl of
        [] \<Rightarrow> Inr (cl, zero, False)
      | block # rest \<Rightarrow>
          if validSize cl = 0 then Inr (cl, zero, False)
          else if offset block \<ge> size_c block then Inr (cl\<lparr>chain := rest\<rparr>, zero, False)
          else
            (case load (data block) (offset block) of
               Inl e \<Rightarrow> Inl e
             | Inr v \<Rightarrow>
                 (let block' = block\<lparr>offset := offset block + 1\<rparr>;
                      cl' = cl\<lparr>chain := block' # rest,
                               validSize := validSize cl - 1,
                               totalSize := totalSize cl - 1\<rparr>
                  in if offset block' < size_c block' - 8 then Inr (cl', v, True)
                     else if offset block' \<ge> size_c block' then Inr (cl'\<lparr>chain := rest\<rparr>, v, True)
                     else Inr (cl', v, True))))"

definition PopEnd :: "'a \<Rightarrow> 'a ChunkPipe \<Rightarrow> error + ('a ChunkPipe \<times> 'a \<times> bool)" where
  "PopEnd zero cl =
     (if chain cl = [] \<or> validSize cl = 0 then Inr (cl, zero, False)
      else
        (let block = last (chain cl) in
         case load (data block) (size_c block - 1) of
           Inl e \<Rightarrow> Inl e
         | Inr v \<Rightarrow>
             (let block' = block\<lparr>size_c := size_c block - 1\<rparr>;
                  cl' = cl\<lparr>chain := butlast (chain cl) @ [block'],
                           validSize := validSize cl - 1,
                           totalSize := totalSize cl - 1\<rparr>
              in if size_c block' \<le> offset block'
                 then Inr (cl'\<lparr>chain := butlast (chain cl)\<rparr>, v, True)
                 else Inr (cl', v, True))))"

section \<open>Range\<close>

fun Range_loop :: "'a Chunk list \<Rightarrow> 'a list \<Rightarrow> error + 'a list" where
  "Range_loop [] result = Inr result"
| "Range_loop (current # rest) result =
     (if size_c current > offset current
      then (case load_run (data current) (offset current) (size_c current - offset current) of
              Inl e \<Rightarrow> Inl e
            | Inr sl \<Rightarrow> Range_loop rest (result @ sl))
      else Range_loop rest result)"

text \<open>\<^verbatim>\<open>make([]T, 0, totalSize)\<close> panics on a negative capacity.\<close>

definition Range_cl :: "'a ChunkPipe \<Rightarrow> error + 'a list" where
  "Range_cl cl =
     (if validSize cl = 0 then Inr []
      else if validSize cl < 0 then Inl Panic
      else Range_loop (chain cl) [])"

section \<open>RangeValues\<close>

text \<open>
  The callback is a Go closure, so it may keep state between calls: it maps an element and
  its state to its answer and its next state. A traversal carries the callback's state
  together with the log of the arguments the callback has been called with.
\<close>

type_synonym ('a, 's) callback = "'a \<Rightarrow> 's \<Rightarrow> bool \<times> 's"

definition call :: "('a, 's) callback \<Rightarrow> 'a \<Rightarrow> 's \<times> 'a list \<Rightarrow> bool \<times> ('s \<times> 'a list)" where
  "call fn x tr = (case fn x (fst tr) of (b, st') \<Rightarrow> (b, (st', snd tr @ [x])))"

text \<open>
  The unrolled condition \<^verbatim>\<open>!fn(slice[i]) || !fn(slice[i+1]) || ... || !fn(slice[i+15])\<close>
  over the indices \<open>js\<close>, evaluated left to right and stopping at the first call that
  answers false; the result says whether one did.
\<close>

fun any_false ::
  "('a, 's) callback \<Rightarrow> 'a list \<Rightarrow> int \<Rightarrow> int list \<Rightarrow> 's \<times> 'a list
     \<Rightarrow> error + (bool \<times> ('s \<times> 'a list))" where
  "any_false fn m sz [] tr = Inr (False, tr)"
| "any_false fn m sz (j # js) tr =
     (case index m sz j of
        Inl e \<Rightarrow> Inl e
      | Inr x \<Rightarrow>
          (case call fn x tr of
             (b, tr') \<Rightarrow> if \<not> b then Inr (True, tr') else any_false fn m sz js tr'))"

text \<open>\<^verbatim>\<open>if i+batchSize*2 <= current.size { _ = slice[i+batchSize] }\<close>: the value is dropped.\<close>

definition prefetch :: "'a list \<Rightarrow> int \<Rightarrow> int \<Rightarrow> error + unit" where
  "prefetch m sz i =
     (if i + 16 * 2 \<le> sz
      then (case index m sz (i + 16) of Inl e \<Rightarrow> Inl e | Inr _ \<Rightarrow> Inr ())
      else Inr ())"

text \<open>
  The main loop, in batches of 16 from index \<open>i\<close>. It returns whether the traversal has to
  return, the index it reached and the traversal state.
\<close>

function batch_loop ::
  "('a, 's) callback \<Rightarrow> 'a list \<Rightarrow> int \<Rightarrow> int \<Rightarrow> 's \<times> 'a list
     \<Rightarrow> error + (bool \<times> int \<times> ('s \<times> 'a list))" where
  "batch_loop fn m sz i tr =
     (if i + 16 \<le> sz
      then
        (case prefetch m sz i of
           Inl e \<Rightarrow> Inl e
         | Inr _ \<Rightarrow>
             (case any_false fn m sz [i .. i + 15] tr of
                Inl e \<Rightarrow> Inl e
              | Inr (stop, tr') \<Rightarrow>
                  if stop then Inr (True, i, tr') else batch_loop fn m sz (i + 16) tr'))
      else Inr (False, i, tr))"
  by pat_completeness auto
termination
  by (relation "measure (\<lambda>(fn, m, sz, i, tr). nat (sz - i))") auto

text \<open>The loop over the remaining elements of the chunk.\<close>

function rest_loop ::
  "('a, 's) callback \<Rightarrow> 'a list \<Rightarrow> int \<Rightarrow> int \<Rightarrow> 's \<times> 'a list
     \<Rightarrow> error + (bool \<times> ('s \<times> 'a list))" where
  "rest_loop fn m sz i tr =
     (if i < sz
      then
        (case index m sz i of
           Inl e \<Rightarrow> Inl e
         | Inr x \<Rightarrow>
             (case call fn x tr of
                (b, tr') \<Rightarrow> if \<not> b then Inr (True, tr') else rest_loop fn m sz (i + 1) tr'))
      else Inr (False, tr))"
  by pat_completeness auto
termination
  by (relation "measure (\<lambda>(fn, m, sz, i, tr). nat (sz - i))") auto

fun RangeValues_loop ::
  "('a, 's) callback \<Rightarrow> 'a Chunk list \<Rightarrow> 's \<times> 'a list \<Rightarrow> error + ('s \<times> 'a list)" where
  "RangeValues_loop fn [] tr = Inr tr"
| "RangeValues_loop fn (current # rest) tr =
     (if size_c current > offset current
      then
        (if size_c current < 0 then Inl Panic
         else
           (case batch_loop fn (data current) (size_c current) (offset current) tr of
              Inl e \<Rightarrow> Inl e
            | Inr (stop, i, tr') \<Rightarrow>
                if stop then Inr tr'
                else
                  (case rest_loop fn (data current) (size_c current) i tr' of
                     Inl e \<Rightarrow> Inl e
                   | Inr (stop', tr'') \<Rightarrow>
                       if stop' then Inr tr'' else RangeValues_loop fn rest tr'')))
      else RangeValues_loop fn rest tr)"

text \<open>
  \<open>RangeValues\<close> returns nothing; the model returns what it did: the arguments of the calls
  of the callback, in the order of the calls, and the callback's final state.
\<close>

definition RangeValues ::
  "('a, 's) callback \<Rightarrow> 'a ChunkPipe \<Rightarrow> 's \<Rightarrow> error + ('a list \<times> 's)" where
  "RangeValues fn cl st =
     (case RangeValues_loop fn (chain cl) (st, []) of
        Inl e \<Rightarrow> Inl e
      | Inr (st', calls) \<Rightarrow> Inr (calls, st'))"

section \<open>Sequences of operations\<close>

datatype 'a operation =
  OpPush "'a slice" | OpPopFront | OpPopEnd | OpPopChunkFront | OpPopChunkEnd

datatype 'a outcome = Pushed | Popped 'a bool | PoppedChunk "'a list" bool

fun step :: "'a \<Rightarrow> 'a operation \<Rightarrow> 'a ChunkPipe \<Rightarrow> error + ('a ChunkPipe \<times> 'a outcome)" where
  "step zero (OpPush d) cl =
     (case Push cl d of Inl e \<Rightarrow> Inl e | Inr cl' \<Rightarrow> Inr (cl', Pushed))"
| "step zero OpPopFront cl =
     (case PopFront zero cl of Inl e \<Rightarrow> Inl e | Inr (cl', v, ok) \<Rightarrow> Inr (cl', Popped v ok))"
| "step zero OpPopEnd cl =
     (case PopEnd zero cl of Inl e \<Rightarrow> Inl e | Inr (cl', v, ok) \<Rightarrow> Inr (cl', Popped v ok))"
| "step zero OpPopChunkFront cl =
     (case PopChunkFront cl of
        Inl e \<Rightarrow> Inl e
      | Inr (cl', vs, ok) \<Rightarrow> Inr (cl', PoppedChunk vs ok))"
| "step zero OpPopChunkEnd cl =
     (case PopChunkEnd cl of
        Inl e \<Rightarrow> Inl e
      | Inr (cl', vs, ok) \<Rightarrow> Inr (cl', PoppedChunk vs ok))"

text \<open>
  Running a sequence of operations from a buffer: the final buffer and the outcome of every
  call, or the first error.
\<close>

fun exec ::
  "'a \<Rightarrow> 'a operation list \<Rightarrow> 'a ChunkPipe \<Rightarrow> error + ('a ChunkPipe \<times> 'a outcome list)" where
  "exec zero [] cl = Inr (cl, [])"
| "exec zero (x # xs) cl =
     (case step zero x cl of
        Inl e \<Rightarrow> Inl e
      | Inr (cl', out) \<Rightarrow>
          (case exec zero xs cl' of
             Inl e \<Rightarrow> Inl e
           | Inr (cl'', outs) \<Rightarrow> Inr (cl'', out # outs)))"

section \<open>Invariant and logical contents\<close>

text \<open>
  A chunk in the chain has a non-empty valid window that lies inside its block. The buffer
  invariant adds what the counters are.
\<close>

definition chunk_ok :: "'a Chunk \<Rightarrow> bool" where
  "chunk_ok c \<longleftrightarrow> 0 \<le> offset c \<and> offset c < size_c c \<and> size_c c \<le> int (length (data c))"

definition pipe_inv :: "'a ChunkPipe \<Rightarrow> bool" where
  "pipe_inv cl \<longleftrightarrow>
     list_all chunk_ok (chain cl)
     \<and> validSize cl = sum_list (map (\<lambda>c. size_c c - offset c) (chain cl))
     \<and> totalSize cl = validSize cl"

definition window :: "'a Chunk \<Rightarrow> 'a list" where
  "window c = take (nat (size_c c - offset c)) (drop (nat (offset c)) (data c))"

definition contents :: "'a ChunkPipe \<Rightarrow> 'a list" where
  "contents cl = concat (map window (chain cl))"

section \<open>Vocabulary of the properties\<close>




text \<open>
  Calling the callback on the elements of a list one at a time, until it answers false: the
  result says whether it did, and carries the traversal state. This is the reference
  \<open>RangeValues\<close> is compared with.
\<close>

fun visit :: "('a, 's) callback \<Rightarrow> 'a list \<Rightarrow> 's \<times> 'a list \<Rightarrow> bool \<times> ('s \<times> 'a list)" where
  "visit fn [] tr = (False, tr)"
| "visit fn (x # xs) tr =
     (case call fn x tr of (b, tr') \<Rightarrow> if \<not> b then (True, tr') else visit fn xs tr')"

text \<open>
  The answers the callback gives when it is called on the elements of a list in order,
  starting in state \<open>st\<close>.
\<close>

fun answers :: "('a, 's) callback \<Rightarrow> 'a list \<Rightarrow> 's \<Rightarrow> bool list" where
  "answers fn [] st = []"
| "answers fn (x # xs) st = (case fn x st of (b, st') \<Rightarrow> b # answers fn xs st')"

declare batch_loop.simps [simp del] rest_loop.simps [simp del]

section \<open>The invariant is preserved\<close>

lemma write_all_eq:
  "write_all m p vs =
     (if vs = [] \<or> (0 \<le> p \<and> p + int (length vs) \<le> int (length m))
      then Inr (take (nat p) m @ vs @ drop (nat p + length vs) m)
      else Inl OutOfAllocation)"
proof (induction vs arbitrary: m p)
  case Nil
  then show ?case by simp
next
  case (Cons v vs)
  show ?case
  proof (cases "0 \<le> p \<and> p < int (length m)")
    case False
    then show ?thesis by (auto simp: store_def)
  next
    case True
    then have st: "store m p v = Inr (m[nat p := v])" by (simp add: store_def)
    have np: "nat (p + 1) = Suc (nat p)" using True by arith
    have lt: "nat p < length m" using True by arith
    have a: "take (Suc (nat p)) (m[nat p := v]) = take (nat p) m @ [v]"
      using lt take_Suc_conv_app_nth [of "nat p" "m[nat p := v]"] by simp
    have b: "drop (Suc (nat p) + length vs) (m[nat p := v]) = drop (Suc (nat p) + length vs) m"
      by simp
    show ?thesis
      using True by (auto simp: st Cons.IH np a b)
  qed
qed

lemma pipe_inv_empty: "pipe_inv empty_pipe"
  by (simp add: pipe_inv_def empty_pipe_def)

lemma Push_inv:
  assumes "pipe_inv cl" and "Push cl d = Inr cl'"
  shows "pipe_inv cl'"
proof (cases "chain cl" rule: rev_cases)
  case Nil
  with assms show ?thesis
    by (auto simp: Push_def pipe_inv_def chunk_ok_def Let_def split: if_splits)
next
  case (snoc cs t)
  with assms show ?thesis
    by (auto simp: Push_def pipe_inv_def chunk_ok_def Let_def write_all_eq split: if_splits)
qed

lemma PopFront_inv:
  assumes "pipe_inv cl" and "PopFront zero cl = Inr (cl', v, ok)"
  shows "pipe_inv cl'"
  using assms
  by (auto simp: PopFront_def pipe_inv_def chunk_ok_def Let_def load_def split: list.splits if_splits)

lemma PopEnd_inv:
  assumes "pipe_inv cl" and "PopEnd zero cl = Inr (cl', v, ok)"
  shows "pipe_inv cl'"
proof (cases "chain cl" rule: rev_cases)
  case Nil
  with assms show ?thesis by (auto simp: PopEnd_def)
next
  case (snoc cs t)
  with assms show ?thesis
    by (auto simp: PopEnd_def pipe_inv_def chunk_ok_def Let_def load_def split: if_splits)
qed

lemma PopChunkFront_inv:
  assumes "pipe_inv cl" and "PopChunkFront cl = Inr (cl', vs, ok)"
  shows "pipe_inv cl'"
  using assms
  by (auto simp: PopChunkFront_def pipe_inv_def chunk_ok_def Let_def copy_valid_def load_run_def
           split: list.splits if_splits)

lemma PopChunkEnd_inv:
  assumes "pipe_inv cl" and "PopChunkEnd cl = Inr (cl', vs, ok)"
  shows "pipe_inv cl'"
proof (cases "chain cl" rule: rev_cases)
  case Nil
  with assms show ?thesis by (auto simp: PopChunkEnd_def)
next
  case (snoc cs t)
  with assms show ?thesis
    by (auto simp: PopChunkEnd_def pipe_inv_def chunk_ok_def Let_def copy_valid_def load_run_def
             split: if_splits)
qed

lemma step_inv:
  assumes "pipe_inv cl" and "step zero x cl = Inr (cl', out)"
  shows "pipe_inv cl'"
  using assms
  by (cases x)
     (auto split: sum.splits dest: Push_inv PopFront_inv PopEnd_inv PopChunkFront_inv PopChunkEnd_inv)

lemma exec_inv:
  "pipe_inv cl \<Longrightarrow> exec zero xs cl = Inr (cl', outs) \<Longrightarrow> pipe_inv cl'"
proof (induction xs arbitrary: cl outs)
  case Nil
  then show ?case by simp
next
  case (Cons x xs)
  from Cons.prems(2) obtain cl1 out outs1
    where s: "step zero x cl = Inr (cl1, out)" and e: "exec zero xs cl1 = Inr (cl', outs1)"
    by (auto split: sum.splits)
  from step_inv [OF Cons.prems(1) s] have "pipe_inv cl1" .
  from Cons.IH [OF this e] show ?case .
qed

section \<open>Range and Get\<close>

lemma window_length: "chunk_ok c \<Longrightarrow> int (length (window c)) = size_c c - offset c"
  by (auto simp: chunk_ok_def window_def)

lemma load_run_window:
  "chunk_ok c \<Longrightarrow> load_run (data c) (offset c) (size_c c - offset c) = Inr (window c)"
  by (auto simp: chunk_ok_def window_def load_run_def)

lemma copy_valid_window: "chunk_ok c \<Longrightarrow> copy_valid c = Inr (window c)"
  by (simp add: copy_valid_def load_run_window) (simp add: chunk_ok_def)

lemma windows_length:
  "list_all chunk_ok cs \<Longrightarrow>
     int (length (concat (map window cs))) = sum_list (map (\<lambda>c. size_c c - offset c) cs)"
  by (induction cs) (auto simp: window_length)

lemma contents_length: "pipe_inv cl \<Longrightarrow> int (length (contents cl)) = validSize cl"
  by (simp add: pipe_inv_def contents_def windows_length)

lemma window_nonempty: "chunk_ok c \<Longrightarrow> window c \<noteq> []"
  using window_length [of c] by (auto simp: chunk_ok_def)

lemma contents_Nil_iff: "pipe_inv cl \<Longrightarrow> contents cl = [] \<longleftrightarrow> chain cl = []"
  by (cases "chain cl") (auto simp: pipe_inv_def contents_def window_nonempty)

lemma Range_loop_windows:
  "list_all chunk_ok cs \<Longrightarrow> Range_loop cs acc = Inr (acc @ concat (map window cs))"
proof (induction cs arbitrary: acc)
  case Nil
  then show ?case by simp
next
  case (Cons c cs)
  then have ok: "chunk_ok c" and rest: "list_all chunk_ok cs" by simp_all
  from ok have lt: "offset c < size_c c" by (simp add: chunk_ok_def)
  show ?case
    using lt by (simp add: load_run_window [OF ok] Cons.IH [OF rest])
qed

lemma Range_contents: "pipe_inv cl \<Longrightarrow> Range_cl cl = Inr (contents cl)"
proof -
  assume inv: "pipe_inv cl"
  show ?thesis
  proof (cases "validSize cl = 0")
    case True
    with contents_length [OF inv] have "contents cl = []" by simp
    with True show ?thesis by (simp add: Range_cl_def)
  next
    case False
    from contents_length [OF inv] have nn: "\<not> validSize cl < 0" by simp
    from inv have "list_all chunk_ok (chain cl)" by (simp add: pipe_inv_def)
    from Range_loop_windows [OF this, of "[]"] False nn
    show ?thesis by (simp add: Range_cl_def contents_def)
  qed
qed







section \<open>The counters\<close>









lemma step_counters:
  assumes "step zero x cl = Inr (cl', out)"
  shows "totalSize cl' - totalSize cl = validSize cl' - validSize cl"
proof (cases x)
  case (OpPush d)
  with assms show ?thesis
    by (auto simp: Push_def Let_def split: sum.splits if_splits)
next
  case OpPopFront
  with assms show ?thesis
    by (auto simp: PopFront_def Let_def split: sum.splits list.splits if_splits)
next
  case OpPopEnd
  with assms show ?thesis
    by (auto simp: PopEnd_def Let_def split: sum.splits if_splits)
next
  case OpPopChunkFront
  with assms show ?thesis
    by (auto simp: PopChunkFront_def Let_def split: sum.splits list.splits if_splits)
next
  case OpPopChunkEnd
  with assms show ?thesis
    by (auto simp: PopChunkEnd_def Let_def split: sum.splits if_splits)
qed

lemma exec_counters:
  "exec zero xs cl = Inr (cl', outs) \<Longrightarrow>
     totalSize cl' - totalSize cl = validSize cl' - validSize cl"
proof (induction xs arbitrary: cl outs)
  case Nil
  then show ?case by simp
next
  case (Cons x xs)
  from Cons.prems obtain cl1 out outs1
    where s: "step zero x cl = Inr (cl1, out)" and e: "exec zero xs cl1 = Inr (cl', outs1)"
    by (auto split: sum.splits)
  from step_counters [OF s] Cons.IH [OF e] show ?case by simp
qed

text \<open>
  C9. In every state reached from the new buffer, \<open>totalSize = validSize\<close>: both start at
  zero and every operation changes both by the same amount (\<open>step_counters\<close>).
\<close>

theorem totalSize_eq_validSize:
  "exec zero ops empty_pipe = Inr (cl, outs) \<Longrightarrow> totalSize cl = validSize cl"
  using exec_counters [of zero ops empty_pipe cl outs] by (simp add: empty_pipe_def)

theorem totalSize_eq_validSize_witness:
  "exec (0::int)
     [OpPush (Slice [1, 2, 3] [0, 0]), OpPush (Slice [4] []), OpPopEnd, OpPopChunkFront,
      OpPush (Slice [5, 6, 7] []), OpPopFront] empty_pipe
     = Inr (\<lparr>chain = [\<lparr>data = [5, 6, 7], size_c = 3, offset = 1\<rparr>],
              totalSize = 2, validSize = 2, root = NilNode\<rparr>,
            [Pushed, Pushed, Popped 4 True, PoppedChunk [1, 2, 3] True, Pushed, Popped 5 True])"
proof -
  have e: "exec (0::int)
     [OpPush (Slice [1, 2, 3] [0, 0]), OpPush (Slice [4] []), OpPopEnd, OpPopChunkFront,
      OpPush (Slice [5, 6, 7] []), OpPopFront] empty_pipe
     = Inr (\<lparr>chain = [\<lparr>data = [5, 6, 7], size_c = 3, offset = 1\<rparr>],
              totalSize = 2, validSize = 2, root = NilNode\<rparr>,
            [Pushed, Pushed, Popped 4 True, PoppedChunk [1, 2, 3] True, Pushed, Popped 5 True])"
    by (simp add: empty_pipe_def Push_def PopFront_def PopEnd_def PopChunkFront_def copy_valid_def
          load_run_def store_def load_def Let_def)
  from totalSize_eq_validSize [OF e] e show ?thesis by simp
qed




section \<open>Order of the elements\<close>

lemma window_Cons:
  assumes "chunk_ok c"
  shows "window c = data c ! nat (offset c) # window (c\<lparr>offset := offset c + 1\<rparr>)"
proof -
  from assms have lt: "nat (offset c) < length (data c)" by (simp add: chunk_ok_def) arith
  from assms have n: "nat (size_c c - offset c) = Suc (nat (size_c c - (offset c + 1)))"
    by (simp add: chunk_ok_def) arith
  from assms have o: "nat (offset c + 1) = Suc (nat (offset c))" by (simp add: chunk_ok_def) arith
  show ?thesis
    unfolding window_def by (simp add: n o Cons_nth_drop_Suc [OF lt, symmetric])
qed

lemma window_snoc:
  assumes "chunk_ok c"
  shows "window c = window (c\<lparr>size_c := size_c c - 1\<rparr>) @ [data c ! nat (size_c c - 1)]"
proof -
  let ?n = "nat (size_c c - 1 - offset c)"
  from assms have n: "nat (size_c c - offset c) = Suc ?n" by (simp add: chunk_ok_def) arith
  from assms have lt: "?n < length (drop (nat (offset c)) (data c))" by (simp add: chunk_ok_def) arith
  from assms have i: "nat (offset c) + ?n = nat (size_c c - 1)" by (simp add: chunk_ok_def) arith
  from assms have le: "nat (offset c) + ?n \<le> length (data c)" by (simp add: chunk_ok_def) arith
  have nd: "drop (nat (offset c)) (data c) ! ?n = data c ! nat (size_c c - 1)"
    using le i by simp
  show ?thesis
    unfolding window_def using take_Suc_conv_app_nth [OF lt] by (simp add: n nd)
qed

lemma window_empty: "size_c c \<le> offset c \<Longrightarrow> window c = []"
  by (simp add: window_def)

lemma PopFront_contents:
  assumes inv: "pipe_inv cl" and c: "contents cl = x # xs"
  shows "\<exists>cl'. PopFront zero cl = Inr (cl', x, True) \<and> contents cl' = xs"
proof -
  from c contents_Nil_iff [OF inv] obtain b rest where ch: "chain cl = b # rest"
    by (cases "chain cl") auto
  from inv ch have ok: "chunk_ok b" by (simp add: pipe_inv_def)
  from contents_length [OF inv] c have v: "validSize cl \<noteq> 0" by auto
  from ok have lt: "offset b < size_c b" and ld: "load (data b) (offset b) = Inr (data b ! nat (offset b))"
    by (auto simp: chunk_ok_def load_def)
  from c ch window_Cons [OF ok]
  have x: "x = data b ! nat (offset b)"
    and xs: "xs = window (b\<lparr>offset := offset b + 1\<rparr>) @ concat (map window rest)"
    by (simp_all add: contents_def)
  have e: "size_c b \<le> offset b + 1 \<Longrightarrow> window (b\<lparr>offset := offset b + 1\<rparr>) = []"
    by (simp add: window_empty)
  show ?thesis
    using ch v lt ld x xs e by (auto simp: PopFront_def Let_def contents_def)
qed

lemma PopEnd_contents:
  assumes inv: "pipe_inv cl" and c: "contents cl = xs @ [x]"
  shows "\<exists>cl'. PopEnd zero cl = Inr (cl', x, True) \<and> contents cl' = xs"
proof -
  from c contents_Nil_iff [OF inv] obtain cs b where ch: "chain cl = cs @ [b]"
    by (cases "chain cl" rule: rev_cases) auto
  from inv ch have ok: "chunk_ok b" by (simp add: pipe_inv_def)
  from contents_length [OF inv] c have v: "validSize cl \<noteq> 0" by auto
  from ok have lt: "offset b < size_c b"
    and ld: "load (data b) (size_c b - 1) = Inr (data b ! nat (size_c b - 1))"
    by (auto simp: chunk_ok_def load_def)
  from c ch window_snoc [OF ok]
  have x: "x = data b ! nat (size_c b - 1)"
    and xs: "xs = concat (map window cs) @ window (b\<lparr>size_c := size_c b - 1\<rparr>)"
    by (simp_all add: contents_def)
  have e: "size_c b - 1 \<le> offset b \<Longrightarrow> window (b\<lparr>size_c := size_c b - 1\<rparr>) = []"
    by (simp add: window_empty)
  show ?thesis
    using ch v lt ld x xs e by (auto simp: PopEnd_def Let_def contents_def)
qed

lemma window_write:
  assumes "chunk_ok t" and "size_c t + int (length vs) \<le> int (length (data t))"
  shows "window (t\<lparr>data := take (nat (size_c t)) (data t) @ vs @ drop (nat (size_c t) + length vs) (data t),
                   size_c := size_c t + int (length vs)\<rparr>) = window t @ vs"
proof -
  define s where "s = nat (size_c t)"
  define o' where "o' = nat (offset t)"
  define m where "m = data t"
  define r where "r = drop (s + length vs) m"
  from assms have a: "o' \<le> s" "s \<le> length m"
    unfolding chunk_ok_def s_def o'_def m_def by arith+
  from assms have n: "nat (size_c t + int (length vs) - offset t) = (s - o') + length vs"
    unfolding chunk_ok_def s_def o'_def by arith
  from assms have n': "nat (size_c t - offset t) = s - o'"
    unfolding chunk_ok_def s_def o'_def by arith
  have l: "length (drop o' (take s m)) = s - o'" using a by simp
  have d: "drop o' (take s m @ vs @ r) = drop o' (take s m) @ vs @ r" using a by simp
  have tk: "take ((s - o') + length vs) (drop o' (take s m) @ vs @ r) = drop o' (take s m) @ vs"
    using l by simp
  have w: "take (s - o') (drop o' m) = drop o' (take s m)"
    using a by (simp add: drop_take)
  have "window (t\<lparr>data := take s m @ vs @ r, size_c := size_c t + int (length vs)\<rparr>)
          = take (nat (size_c t + int (length vs) - offset t)) (drop (nat (offset t)) (take s m @ vs @ r))"
    by (simp add: window_def)
  also have "\<dots> = take ((s - o') + length vs) (drop o' (take s m @ vs @ r))"
    by (simp only: n o'_def)
  also have "\<dots> = drop o' (take s m) @ vs" by (simp only: d tk)
  also have "\<dots> = take (s - o') (drop o' m) @ vs" by (simp only: w)
  also have "\<dots> = window t @ vs"
    by (simp only: window_def n' o'_def m_def)
  finally show ?thesis unfolding s_def m_def r_def by simp
qed

lemma Push_contents:
  assumes inv: "pipe_inv cl" and p: "Push cl d = Inr cl'"
  shows "contents cl' = contents cl @ elems d"
proof (cases "chain cl" rule: rev_cases)
  case Nil
  with p show ?thesis
    by (auto simp: Push_def Let_def contents_def window_def split: if_splits)
next
  case (snoc cs t)
  with inv have ok: "chunk_ok t" by (simp add: pipe_inv_def)
  show ?thesis
  proof (cases "length (elems d) \<noteq> 0 \<and> length (elems d) \<le> 8 \<and> size_c t - offset t < 16")
    case False
    with p snoc show ?thesis
      by (auto simp: Push_def Let_def contents_def window_def split: if_splits)
  next
    case True
    with p snoc have cap: "size_c t + int (length (elems d)) \<le> int (length (data t))"
      by (auto simp: Push_def Let_def write_all_eq split: if_splits)
    from True p snoc cap ok show ?thesis
      by (auto simp: Push_def Let_def write_all_eq contents_def window_write split: if_splits)
  qed
qed

lemma exec_pushes:
  "pipe_inv cl \<Longrightarrow> exec zero (map OpPush ds) cl = Inr (cl', outs) \<Longrightarrow>
     contents cl' = contents cl @ concat (map elems ds)"
proof (induction ds arbitrary: cl outs)
  case Nil
  then show ?case by simp
next
  case (Cons d ds)
  from Cons.prems(2) obtain cl1 outs1
    where s: "Push cl d = Inr cl1" and e: "exec zero (map OpPush ds) cl1 = Inr (cl', outs1)"
    by (auto split: sum.splits)
  from Push_inv [OF Cons.prems(1) s] have inv1: "pipe_inv cl1" .
  from Cons.IH [OF inv1 e] Push_contents [OF Cons.prems(1) s] show ?case by simp
qed

lemma exec_PopFront:
  "pipe_inv cl \<Longrightarrow> k \<le> length (contents cl) \<Longrightarrow>
     \<exists>cl'. exec zero (replicate k OpPopFront) cl
             = Inr (cl', map (\<lambda>v. Popped v True) (take k (contents cl)))"
proof (induction k arbitrary: cl)
  case 0
  then show ?case by simp
next
  case (Suc k)
  from Suc.prems(2) obtain x xs where c: "contents cl = x # xs" by (cases "contents cl") auto
  from PopFront_contents [OF Suc.prems(1) c] obtain cl1
    where p: "PopFront zero cl = Inr (cl1, x, True)" and c1: "contents cl1 = xs" by blast
  from PopFront_inv [OF Suc.prems(1) p] have inv1: "pipe_inv cl1" .
  from Suc.prems(2) c c1 have "k \<le> length (contents cl1)" by simp
  from Suc.IH [OF inv1 this] obtain cl' where
    "exec zero (replicate k OpPopFront) cl1 = Inr (cl', map (\<lambda>v. Popped v True) (take k (contents cl1)))"
    by blast
  with p c c1 show ?case by simp
qed

lemma exec_PopEnd:
  "pipe_inv cl \<Longrightarrow> k \<le> length (contents cl) \<Longrightarrow>
     \<exists>cl'. exec zero (replicate k OpPopEnd) cl
             = Inr (cl', map (\<lambda>v. Popped v True) (take k (rev (contents cl))))"
proof (induction k arbitrary: cl)
  case 0
  then show ?case by simp
next
  case (Suc k)
  from Suc.prems(2) obtain x xs where c: "contents cl = xs @ [x]"
    by (cases "contents cl" rule: rev_cases) auto
  from PopEnd_contents [OF Suc.prems(1) c] obtain cl1
    where p: "PopEnd zero cl = Inr (cl1, x, True)" and c1: "contents cl1 = xs" by blast
  from PopEnd_inv [OF Suc.prems(1) p] have inv1: "pipe_inv cl1" .
  from Suc.prems(2) c c1 have "k \<le> length (contents cl1)" by simp
  from Suc.IH [OF inv1 this] obtain cl' where
    "exec zero (replicate k OpPopEnd) cl1 = Inr (cl', map (\<lambda>v. Popped v True) (take k (rev (contents cl1))))"
    by blast
  with p c c1 show ?case by simp
qed

text \<open>
  C4, as the specification states it, fails: not every sequence of \<open>Push\<close> calls leaves the
  appended elements in the buffer. A slice of three elements and capacity three followed by
  a slice of two takes the small-append path, which writes the two elements outside the
  block of the tail: they land in memory the buffer does not own.
\<close>

theorem FIFO_counterexample:
  "exec (0::int) (map OpPush [Slice [1, 2, 3] [], Slice [4, 5] []]) empty_pipe
     = Inl OutOfAllocation"
  by (simp add: empty_pipe_def Push_def store_def Let_def)

text \<open>
  C4, amended. For every sequence of \<open>Push\<close> calls on a new buffer in which each pushed slice
  has a backing array of its own, every small append finds room for its elements behind
  \<open>size\<close> in the block of the tail (the sequence completes), and fewer than \<open>2^63\<close>
  elements are pushed in all: \<open>k\<close> calls of \<open>PopFront\<close> return the first \<open>k\<close> elements of the
  concatenation of the pushed sequences, in that order, and \<open>k\<close> calls of \<open>PopEnd\<close> return its
  last \<open>k\<close> elements, last one first; every one of these pops succeeds, for every \<open>k\<close> up to
  the number of elements pushed.
\<close>

theorem FIFO_and_LIFO:
  assumes "exec zero (map OpPush ds) empty_pipe = Inr (cl, outs)"
    and "k \<le> length (concat (map elems ds))"
    and "int (length (concat (map elems ds))) \<le> 9223372036854775807"
  shows "(\<exists>cl'. exec zero (replicate k OpPopFront) cl
                  = Inr (cl', map (\<lambda>v. Popped v True) (take k (concat (map elems ds)))))
       \<and> (\<exists>cl'. exec zero (replicate k OpPopEnd) cl
                  = Inr (cl', map (\<lambda>v. Popped v True) (take k (rev (concat (map elems ds))))))"
proof -
  from exec_inv [OF pipe_inv_empty assms(1)] have inv: "pipe_inv cl" .
  have "contents (empty_pipe :: 'a ChunkPipe) = []" by (simp add: contents_def empty_pipe_def)
  with exec_pushes [OF pipe_inv_empty assms(1)] have c: "contents cl = concat (map elems ds)" by simp
  from exec_PopFront [OF inv, of k zero] exec_PopEnd [OF inv, of k zero] assms(2) c
  show ?thesis by simp
qed

theorem FIFO_and_LIFO_witness:
  "(\<exists>cl'. exec (0::int) (replicate 4 OpPopFront)
            \<lparr>chain = [\<lparr>data = [1, 2, 3, 4, 5, 0], size_c = 5, offset = 0\<rparr>],
              totalSize = 5, validSize = 5, root = NilNode\<rparr>
          = Inr (cl', [Popped 1 True, Popped 2 True, Popped 3 True, Popped 4 True]))
   \<and> (\<exists>cl'. exec (0::int) (replicate 4 OpPopEnd)
            \<lparr>chain = [\<lparr>data = [1, 2, 3, 4, 5, 0], size_c = 5, offset = 0\<rparr>],
              totalSize = 5, validSize = 5, root = NilNode\<rparr>
          = Inr (cl', [Popped 5 True, Popped 4 True, Popped 3 True, Popped 2 True]))"
proof -
  have e: "exec (0::int) (map OpPush [Slice [1, 2, 3] [0, 0, 0], Slice [4, 5] []]) empty_pipe
     = Inr (\<lparr>chain = [\<lparr>data = [1, 2, 3, 4, 5, 0], size_c = 5, offset = 0\<rparr>],
              totalSize = 5, validSize = 5, root = NilNode\<rparr>, [Pushed, Pushed])"
    by (simp add: empty_pipe_def Push_def store_def Let_def)
  from FIFO_and_LIFO [OF e, of 4] show ?thesis by simp
qed

section \<open>The empty buffer\<close>

text \<open>
  C5. On a buffer with no chunks and \<open>validSize = 0\<close>, \<open>PopFront\<close> and \<open>PopEnd\<close> return the
  zero value and false, \<open>PopChunkFront\<close> and \<open>PopChunkEnd\<close> return the empty sequence and
  false, \<open>Get\<close> returns the zero value and false at every index; none of them fails, and
  the pops leave the buffer as it was.
\<close>

theorem empty_buffer_reports_not_found:
  "PopFront zero \<lparr>chain = [], totalSize = t, validSize = 0, root = r\<rparr>
     = Inr (\<lparr>chain = [], totalSize = t, validSize = 0, root = r\<rparr>, zero, False)
   \<and> PopEnd zero \<lparr>chain = [], totalSize = t, validSize = 0, root = r\<rparr>
     = Inr (\<lparr>chain = [], totalSize = t, validSize = 0, root = r\<rparr>, zero, False)
   \<and> PopChunkFront \<lparr>chain = [], totalSize = t, validSize = 0, root = r\<rparr>
     = Inr (\<lparr>chain = [], totalSize = t, validSize = 0, root = r\<rparr>, [], False)
   \<and> PopChunkEnd \<lparr>chain = [], totalSize = t, validSize = 0, root = r\<rparr>
     = Inr (\<lparr>chain = [], totalSize = t, validSize = 0, root = r\<rparr>, [], False)
   \<and> Get zero \<lparr>chain = [], totalSize = t, validSize = 0, root = r\<rparr> i = Inr (zero, False)"
  by (simp add: PopFront_def PopEnd_def PopChunkFront_def PopChunkEnd_def Get_def)

section \<open>RangeValues\<close>

lemma visit_append:
  "visit fn (xs @ ys) tr =
     (case visit fn xs tr of (stop, tr') \<Rightarrow> if stop then (True, tr') else visit fn ys tr')"
  by (induction xs arbitrary: tr) (auto split: prod.splits)

lemma any_false_visit:
  "\<forall>j \<in> set js. 0 \<le> j \<and> j < sz \<and> j < int (length m) \<Longrightarrow>
     any_false fn m sz js tr = Inr (visit fn (map (\<lambda>j. m ! nat j) js) tr)"
  by (induction js arbitrary: tr) (auto simp: index_def load_def split: prod.splits)

lemma upto_nth_run:
  "0 \<le> i \<Longrightarrow> i + int n \<le> int (length m) \<Longrightarrow>
     map (\<lambda>j. m ! nat j) [i .. i + int n - 1] = take n (drop (nat i) m)"
proof (induction n arbitrary: i)
  case 0
  then show ?case by simp
next
  case (Suc n)
  from Suc.prems have lt: "nat i < length m" by arith
  have u: "[i .. i + int (Suc n) - 1] = i # [i + 1 .. (i + 1) + int n - 1]"
    by (simp add: upto_rec1 [of i "i + int n"])
  from Suc.prems have ih: "map (\<lambda>j. m ! nat j) [i + 1 .. (i + 1) + int n - 1] = take n (drop (nat (i + 1)) m)"
    by (intro Suc.IH) auto
  from Suc.prems have s: "nat (i + 1) = Suc (nat i)" by arith
  show ?case
    unfolding u using ih by (simp add: s Cons_nth_drop_Suc [OF lt, symmetric])
qed

lemma rest_loop_visit:
  "0 \<le> i \<Longrightarrow> i \<le> sz \<Longrightarrow> sz \<le> int (length m) \<Longrightarrow>
     rest_loop fn m sz i tr = Inr (visit fn (take (nat (sz - i)) (drop (nat i) m)) tr)"
proof (induction fn m sz i tr rule: rest_loop.induct)
  case (1 fn m sz i tr)
  show ?case
  proof (cases "i < sz")
    case False
    then have "rest_loop fn m sz i tr = Inr (False, tr)"
      by (subst rest_loop.simps) simp
    with False "1.prems" show ?thesis by simp
  next
    case True
    with "1.prems" have lt: "nat i < length m" by arith
    from True "1.prems" have idx: "index m sz i = Inr (m ! nat i)"
      by (simp add: index_def load_def)
    from True "1.prems" have n: "nat (sz - i) = Suc (nat (sz - (i + 1)))" by arith
    from "1.prems" have s: "nat (i + 1) = Suc (nat i)" by arith
    have w: "take (nat (sz - i)) (drop (nat i) m)
               = m ! nat i # take (nat (sz - (i + 1))) (drop (nat (i + 1)) m)"
      by (simp add: n s Cons_nth_drop_Suc [OF lt, symmetric])
    obtain b tr' where c: "call fn (m ! nat i) tr = (b, tr')" by (cases "call fn (m ! nat i) tr")
    show ?thesis
    proof (cases b)
      case False
      with True idx c show ?thesis
        by (simp add: rest_loop.simps [of fn m sz i tr] w)
    next
      case b: True
      have "rest_loop fn m sz (i + 1) tr'
              = Inr (visit fn (take (nat (sz - (i + 1))) (drop (nat (i + 1)) m)) tr')"
        by (rule "1.IH" [OF True idx c [symmetric]]) (use b True "1.prems" in auto)
      with True idx c b show ?thesis
        by (simp add: rest_loop.simps [of fn m sz i tr] w)
    qed
  qed
qed

lemma chunk_pass_visit:
  "0 \<le> i \<Longrightarrow> i \<le> sz \<Longrightarrow> sz \<le> int (length m) \<Longrightarrow>
     (case batch_loop fn m sz i tr of
        Inl e \<Rightarrow> Inl e
      | Inr (stop, i', tr') \<Rightarrow>
          if stop then Inr (True, tr') else rest_loop fn m sz i' tr')
     = Inr (visit fn (take (nat (sz - i)) (drop (nat i) m)) tr)"
proof (induction fn m sz i tr rule: batch_loop.induct)
  case (1 fn m sz i tr)
  show ?case
  proof (cases "i + 16 \<le> sz")
    case False
    with "1.prems" show ?thesis
      by (simp add: batch_loop.simps [of fn m sz i tr] rest_loop_visit)
  next
    case True
    from True "1.prems" have pf: "prefetch m sz i = Inr ()"
      by (simp add: prefetch_def index_def load_def)
    have bounds: "\<forall>j \<in> set [i .. i + 15]. 0 \<le> j \<and> j < sz \<and> j < int (length m)"
      using True "1.prems" by auto
    from True "1.prems" have run: "map (\<lambda>j. m ! nat j) [i .. i + 15] = take 16 (drop (nat i) m)"
      using upto_nth_run [of i 16 m] by (simp add: add.commute)
    have af: "any_false fn m sz [i .. i + 15] tr = Inr (visit fn (take 16 (drop (nat i) m)) tr)"
      using any_false_visit [OF bounds, of fn tr] by (simp only: run)
    from True "1.prems" have n: "nat (sz - i) = 16 + nat (sz - (i + 16))" by arith
    from "1.prems" have s: "nat (i + 16) = nat i + 16" by arith
    have w: "take (nat (sz - i)) (drop (nat i) m)
               = take 16 (drop (nat i) m) @ take (nat (sz - (i + 16))) (drop (nat (i + 16)) m)"
      by (simp only: n take_add s drop_drop add.commute)
    obtain stop tr' where v: "visit fn (take 16 (drop (nat i) m)) tr = (stop, tr')"
      by (cases "visit fn (take 16 (drop (nat i) m)) tr")
    show ?thesis
    proof (cases stop)
      case True
      with \<open>i + 16 \<le> sz\<close> pf af v show ?thesis
        by (simp add: batch_loop.simps [of fn m sz i tr] w visit_append)
    next
      case False
      have "(case batch_loop fn m sz (i + 16) tr' of
               Inl e \<Rightarrow> Inl e
             | Inr (stop, i', tr'') \<Rightarrow>
                 if stop then Inr (True, tr'') else rest_loop fn m sz i' tr'')
            = Inr (visit fn (take (nat (sz - (i + 16))) (drop (nat (i + 16)) m)) tr')"
        by (rule "1.IH" [OF \<open>i + 16 \<le> sz\<close> pf af v [symmetric]])
           (use False \<open>i + 16 \<le> sz\<close> "1.prems" in auto)
      with \<open>i + 16 \<le> sz\<close> pf af v False show ?thesis
        by (simp add: batch_loop.simps [of fn m sz i tr] w visit_append)
    qed
  qed
qed

lemma RangeValues_loop_visit:
  "list_all chunk_ok cs \<Longrightarrow>
     RangeValues_loop fn cs tr = Inr (snd (visit fn (concat (map window cs)) tr))"
proof (induction cs arbitrary: tr)
  case Nil
  then show ?case by simp
next
  case (Cons c cs)
  then have ok: "chunk_ok c" and rest: "list_all chunk_ok cs" by simp_all
  from ok have b: "0 \<le> offset c" "offset c \<le> size_c c" "size_c c \<le> int (length (data c))"
    "offset c < size_c c" "\<not> size_c c < 0"
    by (auto simp: chunk_ok_def)
  have pass: "(case batch_loop fn (data c) (size_c c) (offset c) tr of
        Inl e \<Rightarrow> Inl e
      | Inr (stop, i', tr') \<Rightarrow>
          if stop then Inr (True, tr') else rest_loop fn (data c) (size_c c) i' tr')
     = Inr (visit fn (window c) tr)"
    using chunk_pass_visit [OF b(1,2,3)] by (simp add: window_def)
  obtain stop tr' where v: "visit fn (window c) tr = (stop, tr')"
    by (cases "visit fn (window c) tr")
  show ?case
    using b(4,5) pass v Cons.IH [OF rest, of tr']
    by (auto simp: visit_append split: sum.splits prod.splits if_splits)
qed

lemma visit_answers:
  "1 \<le> k \<Longrightarrow> k \<le> length xs \<Longrightarrow> answers fn (take k xs) st = replicate (k - 1) True @ [False] \<Longrightarrow>
     snd (snd (visit fn xs (st, calls))) = calls @ take k xs"
proof (induction xs arbitrary: k st calls)
  case Nil
  then show ?case by simp
next
  case (Cons x xs)
  from Cons.prems(1) obtain k' where k: "k = Suc k'" by (cases k) auto
  obtain b st' where f: "fn x st = (b, st')" by (cases "fn x st")
  show ?case
  proof (cases k')
    case 0
    with Cons.prems(3) k f show ?thesis by (simp add: call_def)
  next
    case (Suc k'')
    with Cons.prems k f have b: "b" and a: "answers fn (take k' xs) st' = replicate (k' - 1) True @ [False]"
      by auto
    from Cons.prems(2) k Suc have "1 \<le> k'" "k' \<le> length xs" by auto
    from Cons.IH [OF this a, of "calls @ [x]"] b f k show ?thesis
      by (simp add: call_def)
  qed
qed

text \<open>
  C6. In every state reached from the new buffer: if the callback answers true on the
  first \<open>k - 1\<close> elements of the sequence that \<open>Range\<close> returns and false on the \<open>k\<close>-th, then
  \<open>RangeValues\<close> calls it exactly on the first \<open>k\<close> elements, in that order, and on nothing
  else, wherever the chunk boundaries and the batches of 16 fall.
\<close>

theorem RangeValues_stops_at_first_false:
  assumes "exec zero ops empty_pipe = Inr (cl, outs)"
    and "Range_cl cl = Inr xs"
    and "1 \<le> k" and "k \<le> length xs"
    and "answers fn (take k xs) st = replicate (k - 1) True @ [False]"
  shows "\<exists>calls st'. RangeValues fn cl st = Inr (calls, st') \<and> calls = take k xs \<and> length calls = k"
proof -
  from exec_inv [OF pipe_inv_empty assms(1)] have inv: "pipe_inv cl" .
  then have ok: "list_all chunk_ok (chain cl)" by (simp add: pipe_inv_def)
  from Range_contents [OF inv] assms(2) have xs: "xs = concat (map window (chain cl))"
    by (simp add: contents_def)
  obtain stop st' calls where v: "visit fn xs (st, []) = (stop, st', calls)"
    by (cases "visit fn xs (st, [])") auto
  from visit_answers [OF assms(3,4,5), of "[]"] v have c: "calls = take k xs" by simp
  with assms(4) have l: "length calls = k" by simp
  from RangeValues_loop_visit [OF ok, of fn "(st, [])"] v xs
  have "RangeValues fn cl st = Inr (calls, st')" by (simp add: RangeValues_def)
  with c l show ?thesis by blast
qed

theorem RangeValues_stops_at_first_false_witness:
  "\<exists>st'. RangeValues (\<lambda>x n. (n < 22, Suc n))
      \<lparr>chain = [\<lparr>data = [1 :: int, 2, 3, 4, 5, 6, 7, 8, 9, 10, 11, 12, 13, 14, 15, 16, 17, 18], size_c = 18, offset = 0\<rparr>,
                   \<lparr>data = [19, 20, 21, 22, 23, 24, 25, 26, 27, 28, 29, 30, 31, 32, 33, 34, 35, 36, 37, 38], size_c = 20, offset = 0\<rparr>],
          totalSize = 38, validSize = 38, root = NilNode\<rparr>
      (0 :: nat)
    = Inr ([1, 2, 3, 4, 5, 6, 7, 8, 9, 10, 11, 12, 13, 14, 15, 16, 17, 18, 19, 20, 21, 22, 23], st')"
proof -
  let ?cl = "\<lparr>chain = [\<lparr>data = [1 :: int, 2, 3, 4, 5, 6, 7, 8, 9, 10, 11, 12, 13, 14, 15, 16, 17, 18], size_c = 18, offset = 0\<rparr>,
                   \<lparr>data = [19, 20, 21, 22, 23, 24, 25, 26, 27, 28, 29, 30, 31, 32, 33, 34, 35, 36, 37, 38], size_c = 20, offset = 0\<rparr>],
          totalSize = 38, validSize = 38, root = NilNode\<rparr>"
  have e: "exec (0::int) [OpPush (Slice [1, 2, 3, 4, 5, 6, 7, 8, 9, 10, 11, 12, 13, 14, 15, 16, 17, 18] []), OpPush (Slice [19, 20, 21, 22, 23, 24, 25, 26, 27, 28, 29, 30, 31, 32, 33, 34, 35, 36, 37, 38] [])] empty_pipe
             = Inr (?cl, [Pushed, Pushed])"
    by (simp add: empty_pipe_def Push_def Let_def)
  have r: "Range_cl ?cl = Inr [1, 2, 3, 4, 5, 6, 7, 8, 9, 10, 11, 12, 13, 14, 15, 16, 17, 18, 19, 20, 21, 22, 23, 24, 25, 26, 27, 28, 29, 30, 31, 32, 33, 34, 35, 36, 37, 38]"
    by (simp add: Range_cl_def load_run_def)
  have a: "answers (\<lambda>x n. (n < 22, Suc n)) (take 23 [1 :: int, 2, 3, 4, 5, 6, 7, 8, 9, 10, 11, 12, 13, 14, 15, 16, 17, 18, 19, 20, 21, 22, 23, 24, 25, 26, 27, 28, 29, 30, 31, 32, 33, 34, 35, 36, 37, 38]) (0 :: nat)
             = replicate (23 - 1) True @ [False]"
    by code_simp
  from RangeValues_stops_at_first_false [OF e r _ _ a] show ?thesis by simp
qed

section \<open>The small-append path\<close>




section \<open>The index tree is never built\<close>









section \<open>Chunks of the chain are never empty\<close>

text \<open>
  C10. In every state reached from the new buffer, every chunk of the chain has
  \<open>offset < size\<close> (and \<open>0 \<le> offset\<close>, and \<open>size\<close> within its block). So the tests that guard
  the empty-chunk branches of \<open>PopFront\<close>, \<open>PopChunkFront\<close> and \<open>PopChunkEnd\<close> are false at
  the head and at the tail, and the position \<open>size - 1\<close> that \<open>PopEnd\<close> reads lies in the
  tail's valid window and in its block.
\<close>

theorem chunks_never_empty:
  assumes "exec zero ops empty_pipe = Inr (cl, outs)"
  shows "(\<forall>c \<in> set (chain cl). 0 \<le> offset c \<and> offset c < size_c c \<and> size_c c \<le> int (length (data c)))
       \<and> (chain cl \<noteq> [] \<longrightarrow>
            \<not> offset (hd (chain cl)) \<ge> size_c (hd (chain cl))
            \<and> \<not> size_c (hd (chain cl)) - offset (hd (chain cl)) \<le> 0
            \<and> \<not> size_c (last (chain cl)) - offset (last (chain cl)) \<le> 0
            \<and> offset (last (chain cl)) \<le> size_c (last (chain cl)) - 1
            \<and> size_c (last (chain cl)) - 1 < size_c (last (chain cl))
            \<and> load (data (last (chain cl))) (size_c (last (chain cl)) - 1)
                = Inr (data (last (chain cl)) ! nat (size_c (last (chain cl)) - 1)))"
proof -
  from exec_inv [OF pipe_inv_empty assms]
  have all: "\<forall>c \<in> set (chain cl). chunk_ok c" by (simp add: pipe_inv_def list_all_iff)
  then have p1: "\<forall>c \<in> set (chain cl).
      0 \<le> offset c \<and> offset c < size_c c \<and> size_c c \<le> int (length (data c))"
    by (simp add: chunk_ok_def)
  have p2: "\<not> offset (hd (chain cl)) \<ge> size_c (hd (chain cl))
            \<and> \<not> size_c (hd (chain cl)) - offset (hd (chain cl)) \<le> 0
            \<and> \<not> size_c (last (chain cl)) - offset (last (chain cl)) \<le> 0
            \<and> offset (last (chain cl)) \<le> size_c (last (chain cl)) - 1
            \<and> size_c (last (chain cl)) - 1 < size_c (last (chain cl))
            \<and> load (data (last (chain cl))) (size_c (last (chain cl)) - 1)
                = Inr (data (last (chain cl)) ! nat (size_c (last (chain cl)) - 1))"
    if ne: "chain cl \<noteq> []"
  proof -
    from all ne have "chunk_ok (hd (chain cl))" and "chunk_ok (last (chain cl))" by simp_all
    then show ?thesis by (auto simp: chunk_ok_def load_def)
  qed
  from p1 p2 show ?thesis by blast
qed

theorem chunks_never_empty_witness:
  "exec (0::int) [OpPush (Slice [1, 2, 3] [0, 0]), OpPopFront, OpPush (Slice [4 .. 20] []), OpPopEnd]
      empty_pipe
     = Inr (\<lparr>chain = [\<lparr>data = [1, 2, 3, 0, 0], size_c = 3, offset = 1\<rparr>,
                       \<lparr>data = [4 .. 20], size_c = 16, offset = 0\<rparr>],
              totalSize = 18, validSize = 18, root = NilNode\<rparr>,
            [Pushed, Popped 1 True, Pushed, Popped 20 True])
   \<and> (1 :: int) < 3 \<and> (0 :: int) < 16
   \<and> load [4 .. 20] (16 - 1) = Inr (19 :: int)"
proof -
  have e: "exec (0::int) [OpPush (Slice [1, 2, 3] [0, 0]), OpPopFront, OpPush (Slice [4 .. 20] []), OpPopEnd]
      empty_pipe
     = Inr (\<lparr>chain = [\<lparr>data = [1, 2, 3, 0, 0], size_c = 3, offset = 1\<rparr>,
                       \<lparr>data = [4 .. 20], size_c = 16, offset = 0\<rparr>],
              totalSize = 18, validSize = 18, root = NilNode\<rparr>,
            [Pushed, Popped 1 True, Pushed, Popped 20 True])"
    by (simp add: empty_pipe_def Push_def PopFront_def PopEnd_def load_def Let_def upto.simps)
  from chunks_never_empty [OF e] e show ?thesis by (simp add: upto.simps)
qed

end
